theory Spec2Isabelle
  imports Main "HOL-Library.Sublist" "HOL-Library.AList"
begin

section \<open>Text and Python's character classes\<close>

text \<open>
  A Python \<open>str\<close> is a sequence of code points. The model covers the code points
  below 256 (ASCII and Latin-1), one \<open>char\<close> each, so \<open>length\<close> counts what Python's
  \<open>len\<close> counts. On this range \<open>str.lower\<close> maps one code point to one code point.

  \<open>is_word\<close> is the class \<^verbatim>\<open>\w\<close> of \<open>re\<close> on \<open>str\<close> patterns (alphanumeric in the
  Unicode database, or underscore), \<open>is_space\<close> is \<^verbatim>\<open>\s\<close>, which is also the set that
  \<open>str.strip()\<close> removes.
\<close>

definition is_word :: "char \<Rightarrow> bool" where
  "is_word ch =
     (let n = (of_char ch :: nat) in
        (48 \<le> n \<and> n \<le> 57) \<or> (65 \<le> n \<and> n \<le> 90) \<or> n = 95 \<or> (97 \<le> n \<and> n \<le> 122) \<or>
        n = 170 \<or> n = 178 \<or> n = 179 \<or> n = 181 \<or> n = 185 \<or> n = 186 \<or>
        (188 \<le> n \<and> n \<le> 190) \<or> (192 \<le> n \<and> n \<le> 214) \<or> (216 \<le> n \<and> n \<le> 246) \<or>
        248 \<le> n)"

definition is_space :: "char \<Rightarrow> bool" where
  "is_space ch =
     (let n = (of_char ch :: nat) in
        (9 \<le> n \<and> n \<le> 13) \<or> (28 \<le> n \<and> n \<le> 32) \<or> n = 133 \<or> n = 160)"

definition lower_char :: "char \<Rightarrow> char" where
  "lower_char ch =
     (let n = (of_char ch :: nat) in
        if (65 \<le> n \<and> n \<le> 90) \<or> (192 \<le> n \<and> n \<le> 214) \<or> (216 \<le> n \<and> n \<le> 222)
        then char_of (n + 32) else ch)"

definition lower :: "string \<Rightarrow> string" where
  "lower s = map lower_char s"

definition strip :: "string \<Rightarrow> string" where
  "strip s = rev (dropWhile is_space (rev (dropWhile is_space s)))"

section \<open>The normalizer: \<open>apply_regex\<close>\<close>

text \<open>
  \<^verbatim>\<open>re.sub(r'[^\w\s,\/]', '', text)\<close> deletes every character of the negated class;
  \<^verbatim>\<open>re.sub(r'\s+', ' ', text)\<close> replaces every maximal run of whitespace (the
  quantifier is greedy and the scan goes left to right) by one space.
\<close>

definition symbol_class :: "char \<Rightarrow> bool" where
  "symbol_class ch = (\<not> (is_word ch \<or> is_space ch \<or> ch = CHR '','' \<or> ch = CHR ''/''))"

definition sub_symbols :: "string \<Rightarrow> string" where
  "sub_symbols text = filter (\<lambda>ch. \<not> symbol_class ch) text"

function sub_spaces :: "string \<Rightarrow> string" where
  "sub_spaces [] = []"
| "sub_spaces (ch # text) =
     (if is_space ch then CHR '' '' # sub_spaces (dropWhile is_space text)
      else ch # sub_spaces text)"
  by pat_completeness auto

termination sub_spaces
proof (relation "measure length", goal_cases)
  case (2 ch t)
  have "length (dropWhile is_space t) \<le> length t" by (rule length_dropWhile_le)
  then show ?case by simp
qed simp_all

definition apply_regex :: "string \<Rightarrow> string" where
  "apply_regex text = strip (sub_spaces (sub_symbols text))"

text \<open>The copy in \<open>cleansing4.py\<close>: its class is \<^verbatim>\<open>[^\w\s,]\<close>, without the slash.\<close>

definition symbol_class_cleansing4 :: "char \<Rightarrow> bool" where
  "symbol_class_cleansing4 ch = (\<not> (is_word ch \<or> is_space ch \<or> ch = CHR '',''))"

definition apply_regex_cleansing4 :: "string \<Rightarrow> string" where
  "apply_regex_cleansing4 text =
     strip (sub_spaces (filter (\<lambda>ch. \<not> symbol_class_cleansing4 ch) text))"

section \<open>The dictionary and its pattern: \<open>load_replacements\<close>\<close>

text \<open>
  A \<open>dict\<close> keeps its keys in insertion order, and assigning to a key that is present
  replaces the value where the key stands: an association list under \<open>AList.update\<close>.
  The rows are those of the data frame after \<open>read_csv\<close> and \<open>dropna\<close>, each with
  its \<open>shorthand\<close> and \<open>full_form\<close> strings.

  The compiled pattern is \<^verbatim>\<open>\b(a1|...|an)\b\<close> where every alternative is a key
  escaped by \<open>re.escape\<close>, that is, matched literally. It is kept as the list of its
  alternatives in order. Joining no key at all gives the empty string, and the group
  \<^verbatim>\<open>()\<close> has one alternative, the empty one.
\<close>

type_synonym table = "(string \<times> string) list"
type_synonym pattern = "string list"

definition compile_pattern :: "string list \<Rightarrow> pattern" where
  "compile_pattern keys = (if keys = [] then [[]] else keys)"

definition load_replacements :: "(string \<times> string) list \<Rightarrow> table \<times> pattern" where
  "load_replacements rows =
     (let replacements =
            fold (\<lambda>(shorthand, full_form) d.
                    AList.update (lower (strip shorthand)) (lower (strip full_form)) d) rows []
      in (replacements, compile_pattern (map fst replacements)))"

section \<open>Substitution: \<open>bulk_replace\<close>\<close>

text \<open>
  A \<open>Counter\<close> is a dict whose missing keys read as 0; reading does not insert.
  \<open>counter[word] += 1\<close> reads and then assigns.
\<close>

type_synonym counter = "(string \<times> int) list"

definition count_of :: "counter \<Rightarrow> string \<Rightarrow> int" where
  "count_of c w = (case map_of c w of None \<Rightarrow> 0 | Some n \<Rightarrow> n)"

definition incr :: "string \<Rightarrow> counter \<Rightarrow> counter" where
  "incr w c = AList.update w (count_of c w + 1) c"

datatype error = KeyError string

text \<open>
  \<^verbatim>\<open>\b\<close> holds at a position when exactly one of the characters before and after it
  is a word character; outside the string there is no word character. The scan carries
  \<open>prev\<close>, whether the character before the position is a word character, and \<open>rest\<close>,
  the text from the position on.
\<close>

definition boundary :: "bool \<Rightarrow> string \<Rightarrow> bool" where
  "boundary prev rest = (prev \<noteq> (case rest of [] \<Rightarrow> False | ch # _ \<Rightarrow> is_word ch))"

definition word_after :: "bool \<Rightarrow> string \<Rightarrow> bool" where
  "word_after prev m = (if m = [] then prev else is_word (last m))"

text \<open>
  One attempt at one position: the leading \<^verbatim>\<open>\b\<close>, then the alternatives in order,
  each followed by the trailing \<^verbatim>\<open>\b\<close>; the first alternative that gets through is
  the match. With \<open>must\<close> (the engine's \<open>must_advance\<close>) an empty match is refused.
\<close>

definition match_here :: "pattern \<Rightarrow> bool \<Rightarrow> bool \<Rightarrow> string \<Rightarrow> string option" where
  "match_here alts must prev rest =
     (if boundary prev rest
      then find (\<lambda>m. prefix m rest \<and> boundary (word_after prev m) (drop (length m) rest) \<and>
                     (must \<longrightarrow> m \<noteq> [])) alts
      else None)"

definition emit :: "string \<Rightarrow> (error + string) \<times> 's \<Rightarrow> (error + string) \<times> 's" where
  "emit piece r = (case r of (Inl e, st) \<Rightarrow> (Inl e, st) | (Inr out, st) \<Rightarrow> (Inr (piece @ out), st))"

text \<open>
  \<open>pattern.sub(repl, string)\<close> with a callable \<open>repl\<close>: search from the current position
  for the leftmost match, copy the text skipped, call \<open>repl\<close> on the match and append
  what it returns, go on after the match. After an empty match the next search starts
  at the same position and must advance. The callable may change state and may raise.
\<close>

function pattern_sub ::
  "pattern \<Rightarrow> (string \<Rightarrow> 's \<Rightarrow> (error + string) \<times> 's) \<Rightarrow> bool \<Rightarrow> bool \<Rightarrow> string \<Rightarrow> 's
     \<Rightarrow> (error + string) \<times> 's" where
  "pattern_sub alts repl must prev rest st =
     (case match_here alts must prev rest of
        Some m \<Rightarrow>
          (case repl m st of
             (Inl e, st') \<Rightarrow> (Inl e, st')
           | (Inr item, st') \<Rightarrow>
               emit item (pattern_sub alts repl (m = []) (word_after prev m)
                            (drop (length m) rest) st'))
      | None \<Rightarrow>
          (case rest of
             [] \<Rightarrow> (Inr [], st)
           | ch # rest' \<Rightarrow> emit [ch] (pattern_sub alts repl False (is_word ch) rest' st)))"
  by pat_completeness auto

lemma match_here_Some:
  "match_here alts must prev rest = Some m \<Longrightarrow>
     m \<in> set alts \<and> prefix m rest \<and> (must \<longrightarrow> m \<noteq> []) \<and> boundary prev rest \<and>
     boundary (word_after prev m) (drop (length m) rest)"
  by (auto simp: match_here_def find_Some_iff split: if_splits)

lemma match_here_shrinks:
  assumes "match_here alts must prev rest = Some m"
  shows "2 * length (drop (length m) rest) + (if m = [] then 0 else 1)
           < 2 * length rest + (if must then 0 else (1::nat))"
proof -
  from assms have p: "prefix m rest" and a: "must \<longrightarrow> m \<noteq> []"
    using match_here_Some by blast+
  from p have le: "length m \<le> length rest" by (rule prefix_length_le)
  show ?thesis
  proof (cases "m = []")
    case True
    with a show ?thesis by simp
  next
    case False
    then obtain a m' where "m = a # m'" by (cases m) auto
    with le show ?thesis by auto
  qed
qed

termination pattern_sub
  by (relation "measure (\<lambda>(alts, repl, must, prev, rest, st).
                  2 * length rest + (if must then 0 else 1))")
     (auto dest: match_here_shrinks)

declare pattern_sub.simps [simp del]

text \<open>
  The callback of \<open>bulk_replace\<close>: it counts the lowercased match, then looks it up; a
  key that is missing raises after the count.
\<close>

definition replace_match :: "table \<Rightarrow> string \<Rightarrow> counter \<Rightarrow> (error + string) \<times> counter" where
  "replace_match replacements m counter =
     (let word = lower m; counter' = incr word counter
      in case map_of replacements word of
           None \<Rightarrow> (Inl (KeyError word), counter')
         | Some full \<Rightarrow> (Inr full, counter'))"

definition bulk_replace ::
  "string \<Rightarrow> table \<Rightarrow> pattern \<Rightarrow> counter \<Rightarrow> (error + string) \<times> counter" where
  "bulk_replace text replacements pattern counter =
     pattern_sub pattern (replace_match replacements) False False (lower text) counter"

section \<open>The pipeline: \<open>clean_notes\<close>\<close>

text \<open>
  A data frame is its columns by name, in order; assigning a column replaces it in place
  or appends it. A cell holds a string or some other value, and \<open>astype(str)\<close> turns the
  latter into text by a conversion \<open>str_of\<close> that the model takes as given.
  \<open>Series.apply\<close> calls the function on the cells in order; an exception of one call
  ends the run. The frame is changed in place, so the model returns it also when the
  run raises.
\<close>

datatype 'a cell = Str string | Obj 'a

type_synonym 'a frame = "(string \<times> 'a cell list) list"

definition astype_str :: "('a \<Rightarrow> string) \<Rightarrow> 'a cell list \<Rightarrow> string list" where
  "astype_str str_of col = map (\<lambda>v. case v of Str s \<Rightarrow> s | Obj x \<Rightarrow> str_of x) col"

fun apply_notes ::
  "table \<Rightarrow> pattern \<Rightarrow> string list \<Rightarrow> counter \<Rightarrow> (error + string list) \<times> counter" where
  "apply_notes replacements pattern [] counter = (Inr [], counter)"
| "apply_notes replacements pattern (t # ts) counter =
     (case bulk_replace t replacements pattern counter of
        (Inl e, counter') \<Rightarrow> (Inl e, counter')
      | (Inr replaced, counter') \<Rightarrow>
          (case apply_notes replacements pattern ts counter' of
             (Inl e, counter'') \<Rightarrow> (Inl e, counter'')
           | (Inr cleaned, counter'') \<Rightarrow> (Inr (apply_regex replaced # cleaned), counter'')))"

definition clean_notes ::
  "('a \<Rightarrow> string) \<Rightarrow> 'a frame \<Rightarrow> table \<Rightarrow> pattern \<Rightarrow> 'a frame \<times> (error + counter)" where
  "clean_notes str_of df replacements pattern =
     (case map_of df ''Clinical Notes'' of
        None \<Rightarrow> (df, Inl (KeyError ''Clinical Notes''))
      | Some col \<Rightarrow>
          (let original = astype_str str_of col;
               df1 = AList.update ''Original Notes'' (map Str original) df
           in case apply_notes replacements pattern original [] of
                (Inl e, _) \<Rightarrow> (df1, Inl e)
              | (Inr cleaned, counter) \<Rightarrow>
                  (AList.update ''Cleaned Notes'' (map Str cleaned) df1, Inr counter)))"

section \<open>Positions of matches\<close>

text \<open>
  The same matching condition read on offsets of the whole text: \<open>word_boundary s i\<close> is
  \<^verbatim>\<open>\b\<close> at offset \<open>i\<close> of \<open>s\<close>, and \<open>token_match k s i\<close> says that \<^verbatim>\<open>\bk\b\<close> matches
  \<open>s\<close> at offset \<open>i\<close>. \<open>token_matches k s\<close> lists these offsets.
\<close>

definition word_before :: "string \<Rightarrow> nat \<Rightarrow> bool" where
  "word_before s i = (0 < i \<and> i \<le> length s \<and> is_word (s ! (i - 1)))"

definition word_at :: "string \<Rightarrow> nat \<Rightarrow> bool" where
  "word_at s i = (i < length s \<and> is_word (s ! i))"

definition word_boundary :: "string \<Rightarrow> nat \<Rightarrow> bool" where
  "word_boundary s i = (word_before s i \<noteq> word_at s i)"

definition token_match :: "string \<Rightarrow> string \<Rightarrow> nat \<Rightarrow> bool" where
  "token_match k s i =
     (i + length k \<le> length s \<and> take (length k) (drop i s) = k \<and>
      word_boundary s i \<and> word_boundary s (i + length k))"

definition token_matches :: "string \<Rightarrow> string \<Rightarrow> nat list" where
  "token_matches k s = filter (token_match k s) [0..<Suc (length s)]"

definition ends_word :: "string \<Rightarrow> bool" where
  "ends_word pre = (pre \<noteq> [] \<and> is_word (last pre))"

section \<open>The normalizer as the specification words it\<close>

text \<open>
  The specification describes the normalizer as: remove every character that is not a
  word character, whitespace, comma or forward slash; collapse any run of whitespace to
  a single space; trim leading and trailing whitespace. The three steps are written here
  from these words, independently of the regular expressions of the code.
\<close>

definition spec_keep :: "char \<Rightarrow> bool" where
  "spec_keep ch = (is_word ch \<or> is_space ch \<or> ch = CHR '','' \<or> ch = CHR ''/'')"

fun spec_collapse :: "string \<Rightarrow> string" where
  "spec_collapse [] = []"
| "spec_collapse [ch] = (if is_space ch then [CHR '' ''] else [ch])"
| "spec_collapse (ch # ch' # s) =
     (if is_space ch
      then (if is_space ch' then spec_collapse (ch' # s) else CHR '' '' # spec_collapse (ch' # s))
      else ch # spec_collapse (ch' # s))"

definition spec_trim :: "string \<Rightarrow> string" where
  "spec_trim s = dropWhile is_space (rev (dropWhile is_space (rev s)))"

definition spec_normalize :: "string \<Rightarrow> string" where
  "spec_normalize text = spec_trim (spec_collapse (filter spec_keep text))"

text \<open>
  A text is single-spaced when each whitespace character in it is a space that is not
  followed by whitespace.
\<close>

fun single_spaced :: "string \<Rightarrow> bool" where
  "single_spaced [] = True"
| "single_spaced (ch # s) =
     ((is_space ch \<longrightarrow> ch = CHR '' '' \<and> (s = [] \<or> \<not> is_space (hd s))) \<and> single_spaced s)"

text \<open>The uppercase letters of ASCII.\<close>

definition ascii_upper :: "char \<Rightarrow> bool" where
  "ascii_upper ch = (let n = (of_char ch :: nat) in 65 \<le> n \<and> n \<le> 90)"

section \<open>Properties of the normalizer\<close>

lemma set_sub_spaces: "set (sub_spaces s) \<subseteq> insert (CHR '' '') (set s)"
proof (induction s rule: sub_spaces.induct)
  case 1
  show ?case by simp
next
  case (2 ch t)
  have "set (dropWhile is_space t) \<subseteq> set t" by (auto dest: set_dropWhileD)
  with 2 show ?case by (cases "is_space ch") auto
qed

lemma set_strip: "set (strip s) \<subseteq> set s"
proof -
  have "set (strip s) \<subseteq> set (dropWhile is_space s)"
    unfolding strip_def using set_dropWhileD [of _ is_space "rev (dropWhile is_space s)"] by auto
  also have "\<dots> \<subseteq> set s" using set_dropWhileD [of _ is_space s] by auto
  finally show ?thesis .
qed

lemma space_not_symbol: "is_space ch \<Longrightarrow> \<not> symbol_class ch"
  by (simp add: symbol_class_def)

lemma is_space_blank: "is_space (CHR '' '')"
  by (simp add: is_space_def)

lemma sub_spaces_hd:
  "s \<noteq> [] \<Longrightarrow> \<not> is_space (hd s) \<Longrightarrow> sub_spaces s \<noteq> [] \<and> hd (sub_spaces s) = hd s"
  by (cases s) auto

lemma dropWhile_hd: "dropWhile P s = [] \<or> \<not> P (hd (dropWhile P s))"
  using hd_dropWhile [of P s] by blast

lemma single_spaced_sub_spaces: "single_spaced (sub_spaces s)"
proof (induction s rule: sub_spaces.induct)
  case 1
  show ?case by simp
next
  case (2 ch t)
  show ?case
  proof (cases "is_space ch")
    case True
    let ?d = "dropWhile is_space t"
    have "sub_spaces ?d = [] \<or> \<not> is_space (hd (sub_spaces ?d))"
    proof (cases "?d = []")
      case True
      then have "sub_spaces ?d = []" by (simp only: sub_spaces.simps)
      then show ?thesis ..
    next
      case False
      with dropWhile_hd [of is_space t] have "\<not> is_space (hd ?d)" by blast
      with False sub_spaces_hd [of ?d] show ?thesis by simp
    qed
    with True 2 show ?thesis by simp
  next
    case False
    with 2 show ?thesis by simp
  qed
qed

lemma sub_spaces_fix: "single_spaced s \<Longrightarrow> sub_spaces s = s"
proof (induction s)
  case Nil
  show ?case by simp
next
  case (Cons ch s)
  show ?case
  proof (cases "is_space ch")
    case True
    with Cons.prems have b: "ch = CHR '' ''" and h: "s = [] \<or> \<not> is_space (hd s)" by auto
    from h have "dropWhile is_space s = s" by (cases s) auto
    with True b Cons show ?thesis by simp
  next
    case False
    with Cons show ?thesis by simp
  qed
qed

lemma single_spaced_append: "single_spaced (xs @ ys) \<Longrightarrow> single_spaced xs \<and> single_spaced ys"
proof (induction xs)
  case Nil
  then show ?case by simp
next
  case (Cons a xs)
  then show ?case by (cases xs) auto
qed

lemma strip_split: "\<exists>l r. s = l @ strip s @ r"
proof -
  let ?d = "dropWhile is_space s"
  have 1: "s = takeWhile is_space s @ ?d" by simp
  have "rev ?d = takeWhile is_space (rev ?d) @ dropWhile is_space (rev ?d)" by simp
  then have "?d = rev (dropWhile is_space (rev ?d)) @ rev (takeWhile is_space (rev ?d))"
    by (metis rev_append rev_rev_ident)
  then have "?d = strip s @ rev (takeWhile is_space (rev ?d))" by (simp add: strip_def)
  with 1 show ?thesis by metis
qed

lemma single_spaced_strip: "single_spaced s \<Longrightarrow> single_spaced (strip s)"
proof -
  assume a: "single_spaced s"
  obtain l r where "s = l @ strip s @ r" using strip_split by blast
  with a have "single_spaced (l @ strip s @ r)" by simp
  then show ?thesis using single_spaced_append by blast
qed

lemma strip_ends:
  "strip s \<noteq> [] \<Longrightarrow> \<not> is_space (hd (strip s)) \<and> \<not> is_space (last (strip s))"
proof -
  assume ne: "strip s \<noteq> []"
  let ?d = "dropWhile is_space s"
  let ?e = "dropWhile is_space (rev ?d)"
  from ne have e: "?e \<noteq> []" by (simp add: strip_def)
  with dropWhile_hd [of is_space "rev ?d"] have "\<not> is_space (hd ?e)" by blast
  with e have l: "\<not> is_space (last (strip s))" by (simp add: strip_def last_rev)
  have d: "?d \<noteq> []"
  proof
    assume "?d = []"
    then have "?e = []" by (simp only: rev.simps dropWhile.simps)
    with e show False ..
  qed
  with dropWhile_hd [of is_space s] have hd: "\<not> is_space (hd ?d)" by blast
  have "rev ?d = takeWhile is_space (rev ?d) @ ?e" by simp
  then have "?d = rev ?e @ rev (takeWhile is_space (rev ?d))" by (metis rev_append rev_rev_ident)
  with e have "hd ?d = hd (rev ?e)" by (metis hd_append2 rev_is_Nil_conv)
  with hd have "\<not> is_space (hd (strip s))" by (simp add: strip_def)
  with l show ?thesis by simp
qed

lemma strip_fix:
  "s = [] \<or> (\<not> is_space (hd s) \<and> \<not> is_space (last s)) \<Longrightarrow> strip s = s"
proof (cases "s = []")
  case True
  then show ?thesis by (simp add: strip_def)
next
  case False
  assume "s = [] \<or> (\<not> is_space (hd s) \<and> \<not> is_space (last s))"
  with False have h: "\<not> is_space (hd s)" and l: "\<not> is_space (last s)" by auto
  from False h have 1: "dropWhile is_space s = s" by (cases s) auto
  from False l have "dropWhile is_space (rev s) = rev s" by (cases "rev s") (auto simp: last_rev)
  with 1 show ?thesis by (simp add: strip_def)
qed

lemma apply_regex_chars: "ch \<in> set (apply_regex t) \<Longrightarrow> \<not> symbol_class ch"
proof -
  assume "ch \<in> set (apply_regex t)"
  then have "ch \<in> set (sub_spaces (sub_symbols t))" using set_strip by (auto simp: apply_regex_def)
  then have "ch = CHR '' '' \<or> ch \<in> set (sub_symbols t)" using set_sub_spaces by auto
  then show ?thesis using space_not_symbol is_space_blank by (auto simp: sub_symbols_def)
qed

lemma apply_regex_single_spaced: "single_spaced (apply_regex t)"
  by (simp add: apply_regex_def single_spaced_strip single_spaced_sub_spaces)

lemma apply_regex_ends:
  "apply_regex t = [] \<or> (\<not> is_space (hd (apply_regex t)) \<and> \<not> is_space (last (apply_regex t)))"
  using strip_ends [of "sub_spaces (sub_symbols t)"] by (auto simp: apply_regex_def)

text \<open>
  Claim C7. Normalizing is idempotent: applying \<open>apply_regex\<close> to its own result
  changes nothing, for every text.
\<close>

theorem apply_regex_idempotent: "apply_regex (apply_regex t) = apply_regex t"
proof -
  let ?r = "apply_regex t"
  have "filter (\<lambda>ch. \<not> symbol_class ch) ?r = ?r"
    using apply_regex_chars by (simp add: filter_id_conv)
  then have 1: "sub_symbols ?r = ?r" by (simp add: sub_symbols_def)
  have 2: "sub_spaces ?r = ?r" by (rule sub_spaces_fix) (rule apply_regex_single_spaced)
  have 3: "strip ?r = ?r" by (rule strip_fix) (rule apply_regex_ends)
  have "apply_regex ?r = strip (sub_spaces (sub_symbols ?r))" by (simp add: apply_regex_def)
  with 1 2 3 show ?thesis by simp
qed

lemma spec_collapse_space:
  "is_space ch \<Longrightarrow> spec_collapse (ch # s) = CHR '' '' # spec_collapse (dropWhile is_space s)"
proof (induction s arbitrary: ch)
  case Nil
  then show ?case by simp
next
  case (Cons a s)
  show ?case
  proof (cases "is_space a")
    case True
    with Cons.prems have "spec_collapse (ch # a # s) = spec_collapse (a # s)" by simp
    also from True have "\<dots> = CHR '' '' # spec_collapse (dropWhile is_space s)" by (rule Cons.IH)
    finally show ?thesis using True by simp
  next
    case False
    with Cons.prems show ?thesis by simp
  qed
qed

lemma spec_collapse_other: "\<not> is_space ch \<Longrightarrow> spec_collapse (ch # s) = ch # spec_collapse s"
  by (cases s) simp_all

lemma sub_spaces_spec: "sub_spaces s = spec_collapse s"
proof (induction s rule: sub_spaces.induct)
  case 1
  show ?case by simp
next
  case (2 ch t)
  then show ?case
    by (cases "is_space ch") (simp_all add: spec_collapse_space spec_collapse_other)
qed

lemma strip_all_space: "\<forall>ch\<in>set s. is_space ch \<Longrightarrow> strip s = [] \<and> spec_trim s = []"
  by (auto simp: strip_def spec_trim_def dest: set_dropWhileD)

lemma strip_spec: "strip s = spec_trim s"
proof (cases "\<forall>ch\<in>set s. is_space ch")
  case True
  then show ?thesis using strip_all_space by simp
next
  case False
  let ?a = "takeWhile is_space s"
  let ?d = "dropWhile is_space s"
  let ?e = "dropWhile is_space (rev ?d)"
  from False have d: "?d \<noteq> []" by simp
  with dropWhile_hd [of is_space s] have hd: "\<not> is_space (hd ?d)" by blast
  from d have "hd ?d \<in> set (rev ?d)" by simp
  with hd have ex: "\<exists>x\<in>set (rev ?d). \<not> is_space x" by blast
  have s: "rev s = rev ?d @ rev ?a" by (metis rev_append takeWhile_dropWhile_id)
  from ex obtain x where x: "x \<in> set (rev ?d)" "\<not> is_space x" by blast
  have "dropWhile is_space (rev ?d @ rev ?a) = ?e @ rev ?a"
    using x by (rule dropWhile_append1)
  with s have "rev (dropWhile is_space (rev s)) = ?a @ rev ?e" by simp
  moreover have "\<forall>ch\<in>set ?a. is_space ch" by (auto dest: set_takeWhileD)
  ultimately have 1: "spec_trim s = dropWhile is_space (rev ?e)"
    by (simp add: spec_trim_def dropWhile_append2)
  have st: "strip s = rev ?e" by (simp add: strip_def)
  from x have "?e \<noteq> []" by (auto simp: dropWhile_eq_Nil_conv)
  then have ne: "strip s \<noteq> []" using st by simp
  with strip_ends [of s] have "\<not> is_space (hd (rev ?e))" using st by simp
  moreover from ne st have "rev ?e \<noteq> []" by simp
  ultimately have "dropWhile is_space (rev ?e) = rev ?e" by (cases "rev ?e") auto
  with 1 st show ?thesis by simp
qed

lemma keep_spec: "(\<lambda>ch. \<not> symbol_class ch) = spec_keep"
  by (auto simp: symbol_class_def spec_keep_def)

lemma apply_regex_spec: "apply_regex t = spec_normalize t"
  by (simp add: apply_regex_def spec_normalize_def sub_symbols_def keep_spec sub_spaces_spec strip_spec)

lemma cleansing4_class:
  "symbol_class_cleansing4 ch = (symbol_class ch \<or> ch = CHR ''/'')"
proof -
  have "\<not> is_word (CHR ''/'')" by (simp add: is_word_def)
  moreover have "\<not> is_space (CHR ''/'')" by (simp add: is_space_def)
  ultimately show ?thesis by (auto simp: symbol_class_def symbol_class_cleansing4_def)
qed

lemma cleansing4_slash:
  "apply_regex_cleansing4 t = apply_regex (filter (\<lambda>ch. ch \<noteq> CHR ''/'') t)"
proof -
  have "filter (\<lambda>ch. \<not> symbol_class_cleansing4 ch) t =
          filter (\<lambda>ch. \<not> symbol_class ch) (filter (\<lambda>ch. ch \<noteq> CHR ''/'') t)"
    by (induction t) (simp_all add: cleansing4_class)
  then show ?thesis by (simp add: apply_regex_cleansing4_def apply_regex_def sub_symbols_def)
qed

text \<open>
  Claim C9, as amended. \<open>apply_regex\<close> of \<open>cleanser.py\<close> is the normalizer the
  specification describes. The copy in \<open>cleansing4.py\<close> is a different function: it
  removes forward slashes as well, so it equals \<open>apply_regex\<close> after the slashes are
  taken out, and the two agree on every text without a forward slash.
\<close>

theorem apply_regex_copies:
  "apply_regex t = spec_normalize t \<and>
   apply_regex_cleansing4 t = apply_regex (filter (\<lambda>ch. ch \<noteq> CHR ''/'') t) \<and>
   (CHR ''/'' \<notin> set t \<longrightarrow> apply_regex_cleansing4 t = apply_regex t)"
proof -
  have "CHR ''/'' \<notin> set t \<Longrightarrow> filter (\<lambda>ch. ch \<noteq> CHR ''/'') t = t"
    by (induction t) auto
  then show ?thesis using apply_regex_spec cleansing4_slash by simp
qed

text \<open>The amended claim at a text without a slash.\<close>

theorem apply_regex_copies_witness:
  "CHR ''/'' \<notin> set ''BP 120,  80!'' \<and>
   apply_regex_cleansing4 ''BP 120,  80!'' = apply_regex ''BP 120,  80!'' \<and>
   apply_regex ''BP 120,  80!'' = ''BP 120, 80''"
proof -
  have 1: "CHR ''/'' \<notin> set ''BP 120,  80!''" by simp
  have 2: "apply_regex ''BP 120,  80!'' = ''BP 120, 80''" by code_simp
  from 1 2 apply_regex_copies [of "''BP 120,  80!''"] show ?thesis by simp
qed

text \<open>
  Claim C9 as stated fails: on \<open>c/o\<close> the copy of \<open>cleanser.py\<close> keeps the slash and
  the copy of \<open>cleansing4.py\<close> removes it.
\<close>

theorem apply_regex_copies_differ:
  "apply_regex ''c/o'' = ''c/o'' \<and> apply_regex_cleansing4 ''c/o'' = ''co''"
  by code_simp

section \<open>Properties of the dictionary\<close>

lemma find_append_case:
  "find P (xs @ ys) = (case find P xs of None \<Rightarrow> find P ys | Some x \<Rightarrow> Some x)"
  by (induction xs) simp_all

lemma fold_update_map_of:
  "map_of (fold (\<lambda>(shorthand, full_form) d. AList.update (f shorthand) (g full_form) d) rows d0) k =
     (case find (\<lambda>row. f (fst row) = k) (rev rows) of
        Some row \<Rightarrow> Some (g (snd row))
      | None \<Rightarrow> map_of d0 k)"
proof (induction rows arbitrary: d0)
  case Nil
  show ?case by simp
next
  case (Cons r rows)
  obtain sh ff where r: "r = (sh, ff)" by (cases r)
  show ?case
    by (simp add: Cons.IH r find_append_case update_conv' split: option.splits)
qed

lemma fold_update_distinct:
  "distinct (map fst d0) \<Longrightarrow>
   distinct (map fst (fold (\<lambda>(shorthand, full_form) d. AList.update (f shorthand) (g full_form) d) rows d0))"
proof (induction rows arbitrary: d0)
  case Nil
  then show ?case by simp
next
  case (Cons r rows)
  obtain sh ff where r: "r = (sh, ff)" by (cases r)
  from Cons.prems have "distinct (map fst (AList.update (f sh) (g ff) d0))"
    by (simp add: distinct_update)
  then show ?case using Cons.IH r by simp
qed

text \<open>
  Claim C5. For every sequence of rows the table has each key once, and a key maps to
  the full form (trimmed, lowercased) of the last row whose trimmed, lowercased
  shorthand is that key; the two \<open>bid\<close> rows give \<open>two times a day\<close>.
\<close>

theorem load_replacements_last_wins:
  "distinct (map fst (fst (load_replacements rows))) \<and>
   map_of (fst (load_replacements rows)) k =
     map_option (\<lambda>row. lower (strip (snd row)))
       (find (\<lambda>row. lower (strip (fst row)) = k) (rev rows)) \<and>
   fst (load_replacements [(''bid'', ''twice daily''), (''bid'', ''two times a day'')]) =
     [(''bid'', ''two times a day'')]"
proof -
  have 1: "distinct (map fst (fst (load_replacements rows)))"
    by (simp add: load_replacements_def Let_def fold_update_distinct)
  have 2: "map_of (fst (load_replacements rows)) k =
     map_option (\<lambda>row. lower (strip (snd row)))
       (find (\<lambda>row. lower (strip (fst row)) = k) (rev rows))"
    by (simp add: load_replacements_def Let_def fold_update_map_of split: option.splits)
  have 3: "fst (load_replacements [(''bid'', ''twice daily''), (''bid'', ''two times a day'')]) =
     [(''bid'', ''two times a day'')]"
    by code_simp
  from 1 2 3 show ?thesis by simp
qed

section \<open>Scenarios\<close>

text \<open>
  Claim C1. With the dictionary of \<open>hr\<close> and \<open>c/o\<close>, \<open>bulk_replace\<close> turns
  \<open>Pt c/o elevated HR today!\<close> into \<open>pt complains of elevated heart rate today!\<close>,
  the counter, empty before, ends with one count for each of \<open>c/o\<close> and \<open>hr\<close>, and
  \<open>apply_regex\<close> then removes the exclamation mark.
\<close>

theorem scenario_hr_co:
  "load_replacements [(''hr'', ''heart rate''), (''c/o'', ''complains of'')]
     = ([(''hr'', ''heart rate''), (''c/o'', ''complains of'')], [''hr'', ''c/o'']) \<and>
   bulk_replace ''Pt c/o elevated HR today!''
       [(''hr'', ''heart rate''), (''c/o'', ''complains of'')] [''hr'', ''c/o''] []
     = (Inr ''pt complains of elevated heart rate today!'', [(''c/o'', 1), (''hr'', 1)]) \<and>
   apply_regex ''pt complains of elevated heart rate today!''
     = ''pt complains of elevated heart rate today''"
  by code_simp

text \<open>
  Claim C4, on the code. Loading no row gives the empty table and the pattern
  \<^verbatim>\<open>\b()\b\<close>, which compiles and matches the empty string at every word boundary. On
  \<open>no shorthand here\<close> the first match, at offset 0, is counted under the empty key and
  the lookup of the empty key in the empty table raises \<open>KeyError\<close>; so does the
  pipeline.
\<close>

theorem empty_dictionary_raises:
  "load_replacements [] = ([], [[]]) \<and>
   bulk_replace ''no shorthand here'' [] [[]] [] = (Inl (KeyError []), [([], 1)]) \<and>
   snd (clean_notes (\<lambda>u :: unit. []) [(''Clinical Notes'', [Str ''no shorthand here''])] [] [[]])
     = Inl (KeyError [])"
  by code_simp

section \<open>The scan, read on offsets\<close>

lemma ends_word_snoc: "ends_word (pre @ [ch]) = is_word ch"
  by (simp add: ends_word_def)

lemma ends_word_append: "ends_word (pre @ m) = word_after (ends_word pre) m"
  by (simp add: ends_word_def word_after_def)

lemma word_before_append: "word_before (pre @ rest) (length pre) = ends_word pre"
  by (cases pre rule: rev_cases) (simp_all add: word_before_def ends_word_def nth_append)

lemma word_at_append:
  "word_at (pre @ rest) (length pre) = (case rest of [] \<Rightarrow> False | ch # _ \<Rightarrow> is_word ch)"
  by (cases rest) (simp_all add: word_at_def)

lemma boundary_position: "boundary (ends_word pre) rest = word_boundary (pre @ rest) (length pre)"
  by (simp add: boundary_def word_boundary_def word_before_append word_at_append)

lemma prefix_take: "prefix m rest = (length m \<le> length rest \<and> take (length m) rest = m)"
  by (metis prefix_def append_take_drop_id append_eq_conv_conj prefix_length_le)

lemma match_position:
  "(boundary (ends_word pre) rest \<and> prefix m rest \<and>
      boundary (word_after (ends_word pre) m) (drop (length m) rest))
     = token_match m (pre @ rest) (length pre)"
proof (cases "prefix m rest")
  case True
  then obtain zs where r: "rest = m @ zs" by (auto simp: prefix_def)
  have "boundary (ends_word (pre @ m)) zs = word_boundary ((pre @ m) @ zs) (length (pre @ m))"
    by (rule boundary_position)
  then have "boundary (word_after (ends_word pre) m) zs
               = word_boundary (pre @ m @ zs) (length pre + length m)"
    by (simp add: ends_word_append)
  with r show ?thesis
    using boundary_position [of pre rest] by (auto simp: token_match_def)
next
  case False
  then show ?thesis by (auto simp: token_match_def prefix_take)
qed

lemma match_here_None:
  "(match_here alts must (ends_word pre) rest = None) =
     (\<forall>m\<in>set alts. token_match m (pre @ rest) (length pre) \<longrightarrow> must \<and> m = [])"
proof -
  have "(match_here alts must (ends_word pre) rest = None) =
          (\<forall>m\<in>set alts. \<not> ((boundary (ends_word pre) rest \<and> prefix m rest \<and>
              boundary (word_after (ends_word pre) m) (drop (length m) rest)) \<and> (must \<longrightarrow> m \<noteq> [])))"
    by (auto simp: match_here_def find_None_iff)
  then show ?thesis by (auto simp: match_position)
qed


lemma find_only:
  assumes "k \<in> set xs" "P k" "\<forall>m\<in>set xs. P m \<longrightarrow> m = k"
  shows "find P xs = Some k"
  using assms
proof (induction xs)
  case Nil
  then show ?case by simp
next
  case (Cons a xs)
  show ?case
  proof (cases "P a")
    case True
    with Cons.prems(3) have "a = k" by simp
    with True show ?thesis by simp
  next
    case False
    with Cons.prems(1,2) have "k \<in> set xs" by auto
    moreover from Cons.prems(3) have "\<forall>m\<in>set xs. P m \<longrightarrow> m = k" by simp
    ultimately have "find P xs = Some k" using Cons.prems(2) by (intro Cons.IH)
    with False show ?thesis by simp
  qed
qed

lemma match_here_only:
  assumes "k \<in> set alts" "token_match k (pre @ rest) (length pre)" "must \<longrightarrow> k \<noteq> []"
    and "\<forall>m\<in>set alts. token_match m (pre @ rest) (length pre) \<longrightarrow> m = k"
  shows "match_here alts must (ends_word pre) rest = Some k"
proof -
  let ?P = "\<lambda>m. prefix m rest \<and> boundary (word_after (ends_word pre) m) (drop (length m) rest) \<and>
                 (must \<longrightarrow> m \<noteq> [])"
  from assms(2) have b: "boundary (ends_word pre) rest" and pk: "?P k"
    using match_position [of pre rest k] assms(3) by auto
  have "\<forall>m\<in>set alts. ?P m \<longrightarrow> m = k"
    using assms(4) b match_position [of pre rest] by blast
  with assms(1) pk have "find ?P alts = Some k" by (rule find_only)
  with b show ?thesis by (simp add: match_here_def)
qed

lemma find_first:
  assumes "k \<in> set xs" "P k" "\<forall>m\<in>set (takeWhile (\<lambda>x. x \<noteq> k) xs). \<not> P m"
  shows "find P xs = Some k"
  using assms
proof (induction xs)
  case Nil
  then show ?case by simp
next
  case (Cons a xs)
  show ?case
  proof (cases "a = k")
    case True
    with Cons.prems(2) show ?thesis by simp
  next
    case False
    with Cons.prems(3) have na: "\<not> P a" and rest: "\<forall>m\<in>set (takeWhile (\<lambda>x. x \<noteq> k) xs). \<not> P m"
      by simp_all
    from False Cons.prems(1) have "k \<in> set xs" by auto
    then have "find P xs = Some k" using Cons.prems(2) rest by (rule Cons.IH)
    with na show ?thesis by simp
  qed
qed

lemma match_here_first:
  assumes "k \<in> set alts" "token_match k (pre @ rest) (length pre)" "must \<longrightarrow> k \<noteq> []"
    and "\<forall>m\<in>set (takeWhile (\<lambda>x. x \<noteq> k) alts). \<not> token_match m (pre @ rest) (length pre)"
  shows "match_here alts must (ends_word pre) rest = Some k"
proof -
  let ?P = "\<lambda>m. prefix m rest \<and> boundary (word_after (ends_word pre) m) (drop (length m) rest) \<and>
                 (must \<longrightarrow> m \<noteq> [])"
  from assms(2) have b: "boundary (ends_word pre) rest" and pk: "?P k"
    using match_position [of pre rest k] assms(3) by auto
  have "\<forall>m\<in>set (takeWhile (\<lambda>x. x \<noteq> k) alts). \<not> ?P m"
    using assms(4) b match_position [of pre rest] by blast
  with assms(1) pk have "find ?P alts = Some k" by (rule find_first)
  with b show ?thesis by (simp add: match_here_def)
qed

lemma emit_Nil: "emit [] r = r"
  by (cases r) (auto simp: emit_def split: sum.splits)

lemma emit_emit: "emit xs (emit ys r) = emit (xs @ ys) r"
  by (cases r) (auto simp: emit_def split: sum.splits)

lemma emit_Inr: "emit xs (Inr out, st) = (Inr (xs @ out), st)"
  by (simp add: emit_def)

lemma pattern_sub_quiet:
  assumes "\<forall>m\<in>set alts. token_match m (pre @ rest) (length pre) \<longrightarrow> must \<and> m = []"
    and "\<forall>j m. 0 < j \<and> m \<in> set alts \<longrightarrow> \<not> token_match m (pre @ rest) (length pre + j)"
  shows "pattern_sub alts repl must (ends_word pre) rest st = (Inr rest, st)"
  using assms
proof (induction rest arbitrary: pre must)
  case Nil
  then have "match_here alts must (ends_word pre) [] = None" by (simp add: match_here_None)
  then show ?case by (subst pattern_sub.simps) simp
next
  case (Cons ch rest)
  from Cons.prems(1) have n: "match_here alts must (ends_word pre) (ch # rest) = None"
    by (simp add: match_here_None)
  have "\<forall>m\<in>set alts. \<not> token_match m ((pre @ [ch]) @ rest) (length (pre @ [ch]))"
    using Cons.prems(2) [rule_format, of 1] by simp
  moreover have "\<forall>j m. 0 < j \<and> m \<in> set alts \<longrightarrow>
      \<not> token_match m ((pre @ [ch]) @ rest) (length (pre @ [ch]) + j)"
    using Cons.prems(2) [rule_format, of "Suc j" for j] by simp
  ultimately have "pattern_sub alts repl False (ends_word (pre @ [ch])) rest st = (Inr rest, st)"
    by (intro Cons.IH) auto
  then have "pattern_sub alts repl False (is_word ch) rest st = (Inr rest, st)"
    by (simp add: ends_word_snoc)
  with n show ?case by (subst pattern_sub.simps) (simp add: emit_Inr)
qed

lemma pattern_sub_skip:
  assumes "\<forall>j m. j < length mid \<and> m \<in> set alts \<longrightarrow>
             \<not> token_match m (pre @ mid @ rest) (length pre + j)"
  shows "pattern_sub alts repl False (ends_word pre) (mid @ rest) st =
           emit mid (pattern_sub alts repl False (ends_word (pre @ mid)) rest st)"
  using assms
proof (induction mid arbitrary: pre)
  case Nil
  show ?case by (simp add: emit_Nil)
next
  case (Cons ch mid)
  have "\<forall>m\<in>set alts. \<not> token_match m (pre @ (ch # mid @ rest)) (length pre)"
    using Cons.prems [rule_format, of 0] by simp
  then have n: "match_here alts False (ends_word pre) (ch # mid @ rest) = None"
    by (simp add: match_here_None)
  have "\<forall>j m. j < length mid \<and> m \<in> set alts \<longrightarrow>
          \<not> token_match m ((pre @ [ch]) @ mid @ rest) (length (pre @ [ch]) + j)"
    using Cons.prems [rule_format, of "Suc j" for j] by simp
  then have "pattern_sub alts repl False (ends_word (pre @ [ch])) (mid @ rest) st =
           emit mid (pattern_sub alts repl False (ends_word ((pre @ [ch]) @ mid)) rest st)"
    by (rule Cons.IH)
  then have "pattern_sub alts repl False (is_word ch) (mid @ rest) st =
           emit mid (pattern_sub alts repl False (ends_word (pre @ ch # mid)) rest st)"
    by (simp add: ends_word_snoc)
  with n show ?case by (subst pattern_sub.simps) (simp add: emit_emit)
qed


section \<open>Lowercasing\<close>

lemma lower_char_idem: "lower_char (lower_char ch) = lower_char ch"
proof -
  let ?n = "of_char ch :: nat"
  show ?thesis
  proof (cases "(65 \<le> ?n \<and> ?n \<le> 90) \<or> (192 \<le> ?n \<and> ?n \<le> 214) \<or> (216 \<le> ?n \<and> ?n \<le> 222)")
    case True
    define m where "m = ?n + 32"
    from True have 1: "lower_char ch = char_of m"
      unfolding lower_char_def Let_def m_def by (simp only: if_True)
    from True have "m mod 256 = m" by (auto simp: m_def)
    then have m1: "(of_char (char_of m) :: nat) = m" by simp
    from True have m2: "\<not> ((65 \<le> m \<and> m \<le> 90) \<or> (192 \<le> m \<and> m \<le> 214) \<or> (216 \<le> m \<and> m \<le> 222))"
      by (auto simp: m_def)
    have "lower_char (char_of m) = char_of m"
      unfolding lower_char_def Let_def m1 using m2 by simp
    with 1 show ?thesis by simp
  next
    case False
    then have "lower_char ch = ch" unfolding lower_char_def Let_def by (simp only: if_False)
    then show ?thesis by simp
  qed
qed

lemma lower_idem: "lower (lower s) = lower s"
  by (simp add: lower_def lower_char_idem)

lemma lower_segment: "lower (take n (drop i (lower s))) = take n (drop i (lower s))"
  by (simp add: lower_def take_map drop_map lower_char_idem)

lemma token_match_lower: "token_match k (lower s) i \<Longrightarrow> lower k = k"
  using lower_segment [of "length k" i s] by (simp add: token_match_def)

section \<open>Texts without a match, texts with one match\<close>

lemma token_match_bound: "token_match k s i \<Longrightarrow> i < Suc (length s)"
  by (simp add: token_match_def)

lemma set_token_matches: "set (token_matches k s) = {j. token_match k s j}"
  using token_match_bound [of k s] unfolding token_matches_def by (auto simp del: upt_Suc)

lemma token_matches_Nil: "(token_matches k s = []) = (\<forall>i. \<not> token_match k s i)"
proof -
  have "(token_matches k s = []) = (set (token_matches k s) = {})" by simp
  then show ?thesis unfolding set_token_matches by blast
qed

lemma token_matches_single:
  assumes "token_matches k s = [i]"
  shows "token_match k s i \<and> (\<forall>j. token_match k s j \<longrightarrow> j = i)"
proof -
  from assms have "set (token_matches k s) = {i}" by simp
  then have "{j. token_match k s j} = {i}" unfolding set_token_matches .
  then show ?thesis by blast
qed

text \<open>
  The offsets with \<^verbatim>\<open>\b\<close> come in pairs, the start and the end of each run of
  word characters: no text has exactly one. So the empty key never has exactly one
  occurrence.
\<close>

lemma word_before_Suc: "word_before s (Suc j) = word_at s j"
  by (auto simp: word_before_def word_at_def)

lemma word_before_0: "\<not> word_before s 0"
  by (simp add: word_before_def)

lemma word_at_end: "length s \<le> j \<Longrightarrow> \<not> word_at s j"
  by (simp add: word_at_def)

lemma token_match_Nil: "token_match [] s j = (j \<le> length s \<and> word_boundary s j)"
  by (auto simp: token_match_def)

lemma boundaries_not_single:
  assumes at: "word_boundary s i"
    and only: "\<forall>j \<le> length s. word_boundary s j \<longrightarrow> j = i"
  shows False
proof -
  have same: "word_before s j = word_at s j" if "j \<le> length s" "j \<noteq> i" for j
    using that only by (auto simp: word_boundary_def)
  have low: "j \<le> i \<Longrightarrow> j \<le> length s \<Longrightarrow> \<not> word_before s j" for j
  proof (induction j)
    case 0
    show ?case by (rule word_before_0)
  next
    case (Suc j)
    from Suc.prems have a: "j \<le> i" "j \<le> length s" "j \<noteq> i" by simp_all
    from a(1,2) have "\<not> word_before s j" by (rule Suc.IH)
    with a(2,3) have "\<not> word_at s j" using same by simp
    then show ?case by (simp only: word_before_Suc not_False_eq_True)
  qed
  show False
  proof (cases "i \<le> length s")
    case False
    then have "\<not> word_before s i" "\<not> word_at s i" by (simp_all add: word_before_def word_at_def)
    with at show False by (simp add: word_boundary_def)
  next
    case True
    then have "\<not> word_before s i" using low by simp
    with at have wa: "word_at s i" by (simp add: word_boundary_def)
    then have lt: "i < length s" by (simp add: word_at_def)
    have high: "i < j \<Longrightarrow> j \<le> length s \<Longrightarrow> word_before s j" for j
    proof (induction j)
      case 0
      then show ?case by simp
    next
      case (Suc j)
      show ?case
      proof (cases "j = i")
        case True
        with wa show ?thesis by (simp only: word_before_Suc)
      next
        case False
        with Suc.prems have a: "i < j" "j \<le> length s" by simp_all
        then have "word_before s j" by (rule Suc.IH)
        with a(2) False have "word_at s j" using same by simp
        then show ?thesis by (simp only: word_before_Suc)
      qed
    qed
    from lt have "word_before s (length s)" using high by simp
    moreover from lt have "length s \<noteq> i" by simp
    ultimately have "word_at s (length s)" using same by simp
    then show False by (simp add: word_at_def)
  qed
qed

lemma token_matches_empty_key: "token_matches [] s \<noteq> [i]"
proof
  assume "token_matches [] s = [i]"
  then have t: "token_match [] s i" and o: "\<forall>j. token_match [] s j \<longrightarrow> j = i"
    using token_matches_single by blast+
  from t have "word_boundary s i" by (simp add: token_match_Nil)
  moreover from o have "\<forall>j \<le> length s. word_boundary s j \<longrightarrow> j = i"
    by (simp add: token_match_Nil)
  ultimately show False by (rule boundaries_not_single)
qed

lemma compile_pattern_keys: "tbl \<noteq> [] \<Longrightarrow> compile_pattern (map fst tbl) = map fst tbl"
  by (simp add: compile_pattern_def)

text \<open>
  Claim C6, as amended. For every dictionary that is not empty, with its compiled
  pattern, and every text: when the lowercased text has no occurrence of any key with
  \<^verbatim>\<open>\b\<close> at both ends of the occurrence, \<open>bulk_replace\<close> returns the lowercased
  text and the counter as it was.
\<close>

theorem bulk_replace_no_match:
  assumes "tbl \<noteq> []"
    and "\<forall>k\<in>set (map fst tbl). token_matches k (lower T) = []"
  shows "bulk_replace T tbl (compile_pattern (map fst tbl)) c = (Inr (lower T), c)"
proof -
  let ?alts = "map fst tbl"
  from assms(2) have none: "\<forall>m\<in>set ?alts. \<forall>i. \<not> token_match m (lower T) i"
    by (simp add: token_matches_Nil)
  have "pattern_sub ?alts (replace_match tbl) False (ends_word []) (lower T) c = (Inr (lower T), c)"
    by (rule pattern_sub_quiet) (use none in auto)
  then show ?thesis
    using assms(1) by (simp add: bulk_replace_def compile_pattern_keys ends_word_def)
qed


text \<open>The amended claim C6 on a text that has \<open>hr\<close> inside words only.\<close>

theorem bulk_replace_no_match_witness:
  "[(''hr'', ''heart rate'')] \<noteq> [] \<and>
   token_matches ''hr'' (lower ''Three chronic'') = [] \<and>
   bulk_replace ''Three chronic'' [(''hr'', ''heart rate'')]
       (compile_pattern (map fst [(''hr'', ''heart rate'')])) [] = (Inr ''three chronic'', [])"
proof -
  have 1: "token_matches ''hr'' (lower ''Three chronic'') = []" by code_simp
  have 2: "lower ''Three chronic'' = ''three chronic''" by code_simp
  from 1 have "\<forall>k\<in>set (map fst [(''hr'', ''heart rate'')]). token_matches k (lower ''Three chronic'') = []"
    by simp
  then have "bulk_replace ''Three chronic'' [(''hr'', ''heart rate'')]
       (compile_pattern (map fst [(''hr'', ''heart rate'')])) [] = (Inr (lower ''Three chronic''), [])"
    by (intro bulk_replace_no_match) simp
  with 1 2 show ?thesis by simp
qed

text \<open>
  Claim C6 as stated fails. In \<open>a+ve\<close> the key \<open>+ve\<close> follows a word character, so the
  text has no occurrence of the key bounded by non-word characters or string edges; yet
  \<^verbatim>\<open>\b\<close> holds between \<open>a\<close> and \<open>+\<close>, the key is replaced and counted.
\<close>

theorem bulk_replace_joined_token:
  "bulk_replace ''a+ve'' [(''+ve'', ''positive'')] (compile_pattern [''+ve'']) []
     = (Inr ''apositive'', [(''+ve'', 1)]) \<and>
   lower ''a+ve'' = ''a'' @ ''+ve'' \<and> is_word (last ''a'')"
  by code_simp

lemma count_of_incr: "count_of (incr w c) k = (if k = w then count_of c w + 1 else count_of c k)"
  by (simp add: count_of_def incr_def update_conv')

lemma replace_match_key:
  "lower k = k \<Longrightarrow> map_of tbl k = Some v \<Longrightarrow> replace_match tbl k c = (Inr v, incr k c)"
  by (simp add: replace_match_def)

text \<open>
  Claim C2, as amended. For every dictionary with key \<open>k\<close>, with its compiled pattern,
  and every text: when the lowercased text has exactly one occurrence of \<open>k\<close> with
  \<^verbatim>\<open>\b\<close> at both ends, at offset \<open>i\<close>, and every such occurrence of another key
  either starts inside the occurrence of \<open>k\<close>, after its first character, or starts at
  \<open>i\<close> too with the key standing after \<open>k\<close> in the dictionary, \<open>bulk_replace\<close>
  returns the lowercased text with that occurrence replaced by the full form of \<open>k\<close>;
  the count of \<open>k\<close> is one more than before and every other count is as before.
\<close>

theorem bulk_replace_single_match:
  assumes "map_of tbl k = Some v"
    and "token_matches k (lower T) = [i]"
    and "\<forall>m\<in>set (map fst tbl). m \<noteq> k \<longrightarrow>
           (\<forall>j\<in>set (token_matches m (lower T)).
              (i < j \<and> j < i + length k) \<or>
              (j = i \<and> m \<notin> set (takeWhile (\<lambda>x. x \<noteq> k) (map fst tbl))))"
  shows "bulk_replace T tbl (compile_pattern (map fst tbl)) c =
           (Inr (take i (lower T) @ v @ drop (i + length k) (lower T)), incr k c) \<and>
         count_of (incr k c) k = count_of c k + 1 \<and>
         (\<forall>k'. k' \<noteq> k \<longrightarrow> count_of (incr k c) k' = count_of c k')"
proof -
  let ?s = "lower T"
  let ?alts = "map fst tbl"
  let ?mid = "take i ?s"
  let ?post = "drop (i + length k) ?s"
  from assms(2) have tk: "token_match k ?s i" and only: "\<forall>j. token_match k ?s j \<longrightarrow> j = i"
    using token_matches_single by blast+
  from assms(2) have kne: "k \<noteq> []" using token_matches_empty_key by blast
  from assms(1) have "(k, v) \<in> set tbl" by (rule map_of_SomeD)
  then have kin: "k \<in> set ?alts" by force
  then have ne: "tbl \<noteq> []" by auto
  from tk have il: "i + length k \<le> length ?s" and seg: "take (length k) (drop i ?s) = k"
    by (simp_all add: token_match_def)
  have split: "?mid @ k @ ?post = ?s"
  proof -
    have a: "drop (length k) (drop i ?s) = ?post" by (simp add: add.commute)
    from seg a have "k @ ?post = take (length k) (drop i ?s) @ drop (length k) (drop i ?s)"
      by (simp only:)
    also have "\<dots> = drop i ?s" by (simp only: append_take_drop_id)
    finally have "?mid @ k @ ?post = ?mid @ drop i ?s" by (simp only:)
    then show ?thesis by (simp only: append_take_drop_id)
  qed
  then have split2: "(?mid @ k) @ ?post = ?s" by (simp only: append_assoc)
  from il have lm: "length ?mid = i" by simp
  have any: "(i \<le> j \<and> j < i + length k) \<and> (j = i \<longrightarrow> m \<notin> set (takeWhile (\<lambda>x. x \<noteq> k) ?alts))"
    if m: "m \<in> set ?alts" and t: "token_match m ?s j" for m j
  proof (cases "m = k")
    case True
    with t have "token_match k ?s j" by (simp only:)
    then have "j = i" by (rule only [rule_format])
    moreover have "k \<notin> set (takeWhile (\<lambda>x. x \<noteq> k) ?alts)"
    proof
      assume "k \<in> set (takeWhile (\<lambda>x. x \<noteq> k) ?alts)"
      then have "k \<noteq> k" by (rule set_takeWhileD [THEN conjunct2])
      then show False by simp
    qed
    ultimately show ?thesis using kne True by simp
  next
    case False
    from t have jin: "j \<in> set (token_matches m ?s)" by (simp add: set_token_matches)
    have "(i < j \<and> j < i + length k) \<or>
              (j = i \<and> m \<notin> set (takeWhile (\<lambda>x. x \<noteq> k) ?alts))"
      by (rule assms(3) [rule_format, OF m False jin])
    then show ?thesis using kne by auto
  qed
  have skip: "pattern_sub ?alts (replace_match tbl) False (ends_word []) (?mid @ k @ ?post) c =
        emit ?mid (pattern_sub ?alts (replace_match tbl) False (ends_word ([] @ ?mid)) (k @ ?post) c)"
  proof (rule pattern_sub_skip, intro allI impI)
    fix j m
    assume a: "j < length ?mid \<and> m \<in> set ?alts"
    show "\<not> token_match m ([] @ ?mid @ k @ ?post) (length ([] :: string) + j)"
    proof
      assume "token_match m ([] @ ?mid @ k @ ?post) (length ([] :: string) + j)"
      then have t: "token_match m ?s j" by (simp only: split append_Nil list.size add_0)
      from a have m: "m \<in> set ?alts" by (rule conjunct2)
      from any [OF m t] have "i \<le> j" by simp
      with a lm show False by simp
    qed
  qed
  have here: "match_here ?alts False (ends_word ?mid) (k @ ?post) = Some k"
  proof (rule match_here_first)
    show "k \<in> set ?alts" by (rule kin)
    show "token_match k (?mid @ k @ ?post) (length ?mid)" using tk by (simp only: split lm)
    show "False \<longrightarrow> k \<noteq> []" by simp
    show "\<forall>m\<in>set (takeWhile (\<lambda>x. x \<noteq> k) ?alts). \<not> token_match m (?mid @ k @ ?post) (length ?mid)"
    proof (intro ballI notI)
      fix m
      assume b: "m \<in> set (takeWhile (\<lambda>x. x \<noteq> k) ?alts)"
        and "token_match m (?mid @ k @ ?post) (length ?mid)"
      then have t: "token_match m ?s i" by (simp only: split lm)
      from b have m: "m \<in> set ?alts" by (rule set_takeWhileD [THEN conjunct1])
      from any [OF m t] b show False by simp
    qed
  qed
  from tk have lk: "lower k = k" by (rule token_match_lower)
  have call: "replace_match tbl k c = (Inr v, incr k c)"
    using lk assms(1) by (rule replace_match_key)
  have tail: "pattern_sub ?alts (replace_match tbl) (k = []) (ends_word (?mid @ k)) ?post (incr k c)
                = (Inr ?post, incr k c)"
  proof (rule pattern_sub_quiet)
    show "\<forall>m\<in>set ?alts. token_match m ((?mid @ k) @ ?post) (length (?mid @ k)) \<longrightarrow> k = [] \<and> m = []"
    proof (intro ballI impI)
      fix m
      assume m: "m \<in> set ?alts" and t: "token_match m ((?mid @ k) @ ?post) (length (?mid @ k))"
      from t have "token_match m ?s (i + length k)" by (simp only: split2 length_append lm)
      from any [OF m this] have False by simp
      then show "k = [] \<and> m = []" ..
    qed
    show "\<forall>j m. 0 < j \<and> m \<in> set ?alts \<longrightarrow>
            \<not> token_match m ((?mid @ k) @ ?post) (length (?mid @ k) + j)"
    proof (intro allI impI)
      fix j :: nat and m
      assume a: "0 < j \<and> m \<in> set ?alts"
      show "\<not> token_match m ((?mid @ k) @ ?post) (length (?mid @ k) + j)"
      proof
        assume "token_match m ((?mid @ k) @ ?post) (length (?mid @ k) + j)"
        then have t: "token_match m ?s (i + length k + j)" by (simp only: split2 length_append lm)
        from a have m: "m \<in> set ?alts" by (rule conjunct2)
        from any [OF m t] show False by simp
      qed
    qed
  qed
  have step: "pattern_sub ?alts (replace_match tbl) False (ends_word ?mid) (k @ ?post) c =
        emit v (pattern_sub ?alts (replace_match tbl) (k = []) (word_after (ends_word ?mid) k) ?post (incr k c))"
    by (subst pattern_sub.simps) (simp add: here call)
  have "pattern_sub ?alts (replace_match tbl) False False ?s c = (Inr (?mid @ v @ ?post), incr k c)"
  proof -
    have "pattern_sub ?alts (replace_match tbl) False False ?s c =
            pattern_sub ?alts (replace_match tbl) False (ends_word []) (?mid @ k @ ?post) c"
      by (simp only: split) (simp add: ends_word_def)
    also have "\<dots> = emit ?mid (pattern_sub ?alts (replace_match tbl) False (ends_word ?mid) (k @ ?post) c)"
      using skip by (simp only: append_Nil)
    also have "\<dots> = emit ?mid (emit v (Inr ?post, incr k c))"
      using step tail by (simp add: ends_word_append)
    also have "\<dots> = (Inr (?mid @ v @ ?post), incr k c)" by (simp add: emit_Inr)
    finally show ?thesis .
  qed
  then have "bulk_replace T tbl (compile_pattern (map fst tbl)) c =
           (Inr (?mid @ v @ ?post), incr k c)"
    using ne by (simp add: bulk_replace_def compile_pattern_keys)
  then show ?thesis by (simp add: count_of_incr)
qed

text \<open>
  The amended claim C2 on \<open>Pt W/O pain\<close>, with the keys \<open>w/o\<close>, \<open>w\<close> and \<open>o\<close>
  in this order: \<open>w\<close> has an occurrence at the offset of \<open>w/o\<close> and \<open>o\<close> has one
  inside it.
\<close>

theorem bulk_replace_single_match_witness:
  "map_of [(''w/o'', ''without''), (''w'', ''with''), (''o'', ''oxygen'')] ''w/o'' = Some ''without'' \<and>
   token_matches ''w/o'' (lower ''Pt W/O pain'') = [3] \<and>
   token_matches ''w'' (lower ''Pt W/O pain'') = [3] \<and>
   token_matches ''o'' (lower ''Pt W/O pain'') = [5] \<and>
   takeWhile (\<lambda>x. x \<noteq> ''w/o'') [''w/o'', ''w'', ''o''] = [] \<and>
   bulk_replace ''Pt W/O pain'' [(''w/o'', ''without''), (''w'', ''with''), (''o'', ''oxygen'')]
       (compile_pattern [''w/o'', ''w'', ''o'']) []
     = (Inr ''pt without pain'', [(''w/o'', 1)])"
proof -
  let ?tbl = "[(''w/o'', ''without''), (''w'', ''with''), (''o'', ''oxygen'')]"
  let ?T = "''Pt W/O pain''"
  have 1: "map_of ?tbl ''w/o'' = Some ''without''" by simp
  have 2: "token_matches ''w/o'' (lower ?T) = [3]" by code_simp
  have 3: "token_matches ''w'' (lower ?T) = [3]" by code_simp
  have 4: "token_matches ''o'' (lower ?T) = [5]" by code_simp
  have 5: "takeWhile (\<lambda>x. x \<noteq> ''w/o'') [''w/o'', ''w'', ''o''] = []" by simp
  have 6: "map fst ?tbl = [''w/o'', ''w'', ''o'']" by simp
  have 7: "\<forall>m\<in>set (map fst ?tbl). m \<noteq> ''w/o'' \<longrightarrow>
           (\<forall>j\<in>set (token_matches m (lower ?T)).
              (3 < j \<and> j < 3 + length ''w/o'') \<or>
              (j = 3 \<and> m \<notin> set (takeWhile (\<lambda>x. x \<noteq> ''w/o'') (map fst ?tbl))))"
    unfolding 6 5 using 3 4 by simp
  have 8: "take 3 (lower ?T) @ ''without'' @ drop (3 + length ''w/o'') (lower ?T)
             = ''pt without pain''" by code_simp
  have 9: "incr ''w/o'' [] = [(''w/o'', 1)]" by code_simp
  from bulk_replace_single_match [OF 1 2 7, of "[]"] 8 9 6
  have "bulk_replace ?T ?tbl (compile_pattern [''w/o'', ''w'', ''o'']) []
          = (Inr ''pt without pain'', [(''w/o'', 1)])" by (simp only:)
  with 1 2 3 4 5 show ?thesis by (simp only: simp_thms)
qed

text \<open>
  Claim C2 as stated fails. In \<open>item #1 here\<close> the key \<open>#1\<close> stands once between two
  spaces, and nothing is replaced or counted: there is no \<^verbatim>\<open>\b\<close> between a space and
  \<open>#\<close>. In \<open>Pt c/o\<close> the key \<open>c/o\<close> stands once between a space and the end, and
  the earlier alternative \<open>c\<close> matches at the same offset: \<open>c\<close> is replaced and counted,
  \<open>c/o\<close> is not. In \<open>HR, BP\<close> the key \<open>hr\<close> stands once between the start and a
  comma and is replaced and counted once, and so is \<open>bp\<close> after it: another count
  changes.
\<close>

theorem bulk_replace_single_match_fails:
  "bulk_replace ''item #1 here'' [(''#1'', ''number one'')] (compile_pattern [''#1'']) []
     = (Inr ''item #1 here'', []) \<and>
   lower ''item #1 here'' = ''item '' @ ''#1'' @ '' here'' \<and>
   \<not> is_word (last ''item '') \<and> \<not> is_word (hd '' here'') \<and>
   bulk_replace ''Pt c/o'' [(''c'', ''with''), (''c/o'', ''complains of'')]
       (compile_pattern [''c'', ''c/o'']) []
     = (Inr ''pt with/o'', [(''c'', 1)]) \<and>
   lower ''Pt c/o'' = ''pt '' @ ''c/o'' @ [] \<and> \<not> is_word (last ''pt '') \<and>
   bulk_replace ''HR, BP'' [(''hr'', ''heart rate''), (''bp'', ''blood pressure'')]
       (compile_pattern [''hr'', ''bp'']) []
     = (Inr ''heart rate, blood pressure'', [(''hr'', 1), (''bp'', 1)]) \<and>
   lower ''HR, BP'' = [] @ ''hr'' @ '', bp'' \<and> \<not> is_word (hd '', bp'')"
  by code_simp

section \<open>Two runs of the scan side by side\<close>














section \<open>Runs of the pipeline\<close>

lemma clean_notes_Inr:
  assumes "clean_notes str_of df r p = (df', Inr c)"
  obtains col cleaned where
    "map_of df ''Clinical Notes'' = Some col"
    "apply_notes r p (astype_str str_of col) [] = (Inr cleaned, c)"
    "df' = AList.update ''Cleaned Notes'' (map Str cleaned)
             (AList.update ''Original Notes'' (map Str (astype_str str_of col)) df)"
proof (cases "map_of df ''Clinical Notes''")
  case None
  with assms show ?thesis by (simp add: clean_notes_def)
next
  case (Some col)
  obtain res c' where an: "apply_notes r p (astype_str str_of col) [] = (res, c')"
    by (cases "apply_notes r p (astype_str str_of col) []")
  show ?thesis
  proof (cases res)
    case (Inl e)
    with assms Some an show ?thesis by (simp add: clean_notes_def Let_def)
  next
    case (Inr cleaned)
    with assms Some an have "c' = c" and
      "df' = AList.update ''Cleaned Notes'' (map Str cleaned)
             (AList.update ''Original Notes'' (map Str (astype_str str_of col)) df)"
      by (simp_all add: clean_notes_def Let_def)
    with Some an Inr show ?thesis by (intro that) simp_all
  qed
qed

lemma clean_notes_run:
  assumes "map_of df ''Clinical Notes'' = Some col"
    and "apply_notes r p (astype_str str_of col) [] = (Inr cleaned, c)"
  shows "clean_notes str_of df r p =
           (AList.update ''Cleaned Notes'' (map Str cleaned)
             (AList.update ''Original Notes'' (map Str (astype_str str_of col)) df), Inr c)"
  using assms by (simp add: clean_notes_def Let_def)

text \<open>
  Claim C8. \<open>clean_notes\<close> starts from a fresh counter and reads the
  \<open>Clinical Notes\<close> column only. So a run that succeeds on a frame fixes the result of
  every run with the same dictionary and the same notes: on any frame with the same
  notes column the counter and the cleaned texts are the same, and a second run on the
  frame that the first run has changed in place returns that frame and that counter
  again.
\<close>

theorem clean_notes_deterministic:
  assumes "map_of df2 ''Clinical Notes'' = map_of df1 ''Clinical Notes''"
    and "clean_notes str_of df1 r p = (df1', Inr c)"
  shows "snd (clean_notes str_of df2 r p) = Inr c \<and>
         map_of (fst (clean_notes str_of df2 r p)) ''Cleaned Notes'' = map_of df1' ''Cleaned Notes'' \<and>
         clean_notes str_of df1' r p = (df1', Inr c)"
proof -
  from assms(2) obtain col cleaned where
    col: "map_of df1 ''Clinical Notes'' = Some col" and
    an: "apply_notes r p (astype_str str_of col) [] = (Inr cleaned, c)" and
    df1': "df1' = AList.update ''Cleaned Notes'' (map Str cleaned)
             (AList.update ''Original Notes'' (map Str (astype_str str_of col)) df1)"
    by (rule clean_notes_Inr)
  let ?orig = "map Str (astype_str str_of col) :: 'a cell list"
  let ?clean = "map Str cleaned :: 'a cell list"
  from assms(1) col have "map_of df2 ''Clinical Notes'' = Some col" by simp
  then have run2: "clean_notes str_of df2 r p =
      (AList.update ''Cleaned Notes'' ?clean (AList.update ''Original Notes'' ?orig df2), Inr c)"
    using an by (rule clean_notes_run)
  have 1: "snd (clean_notes str_of df2 r p) = Inr c" by (simp add: run2)
  have 2: "map_of (fst (clean_notes str_of df2 r p)) ''Cleaned Notes'' = map_of df1' ''Cleaned Notes''"
    by (simp add: run2 df1' update_conv')
  have "map_of df1' ''Clinical Notes'' = Some col" by (simp add: df1' update_conv' col)
  then have run3: "clean_notes str_of df1' r p =
      (AList.update ''Cleaned Notes'' ?clean (AList.update ''Original Notes'' ?orig df1'), Inr c)"
    using an by (rule clean_notes_run)
  have "map_of df1' ''Original Notes'' = Some ?orig" by (simp add: df1' update_conv')
  then have o: "AList.update ''Original Notes'' ?orig df1' = df1'" by (rule update_triv)
  have "map_of df1' ''Cleaned Notes'' = Some ?clean" by (simp add: df1' update_conv')
  then have "AList.update ''Cleaned Notes'' ?clean df1' = df1'" by (rule update_triv)
  with o run3 have 3: "clean_notes str_of df1' r p = (df1', Inr c)" by simp
  from 1 2 3 show ?thesis by simp
qed

text \<open>Claim C8 on two frames with the same two notes, one with a further column.\<close>

theorem clean_notes_deterministic_witness:
  "map_of [(''id'', [Obj ()]), (''Clinical Notes'', [Str ''Pt c/o HR!'', Obj ()])] ''Clinical Notes''
     = map_of [(''Clinical Notes'', [Str ''Pt c/o HR!'', Obj ()])] ''Clinical Notes'' \<and>
   clean_notes (\<lambda>u. ''nan'') [(''Clinical Notes'', [Str ''Pt c/o HR!'', Obj ()])]
       [(''hr'', ''heart rate''), (''c/o'', ''complains of'')] [''hr'', ''c/o'']
     = ([(''Clinical Notes'', [Str ''Pt c/o HR!'', Obj ()]),
         (''Original Notes'', [Str ''Pt c/o HR!'', Str ''nan'']),
         (''Cleaned Notes'', [Str ''pt complains of heart rate'', Str ''nan''])],
        Inr [(''c/o'', 1), (''hr'', 1)]) \<and>
   snd (clean_notes (\<lambda>u. ''nan'') [(''id'', [Obj ()]), (''Clinical Notes'', [Str ''Pt c/o HR!'', Obj ()])]
       [(''hr'', ''heart rate''), (''c/o'', ''complains of'')] [''hr'', ''c/o''])
     = Inr [(''c/o'', 1), (''hr'', 1)] \<and>
   clean_notes (\<lambda>u. ''nan'')
       [(''Clinical Notes'', [Str ''Pt c/o HR!'', Obj ()]),
        (''Original Notes'', [Str ''Pt c/o HR!'', Str ''nan'']),
        (''Cleaned Notes'', [Str ''pt complains of heart rate'', Str ''nan''])]
       [(''hr'', ''heart rate''), (''c/o'', ''complains of'')] [''hr'', ''c/o'']
     = ([(''Clinical Notes'', [Str ''Pt c/o HR!'', Obj ()]),
         (''Original Notes'', [Str ''Pt c/o HR!'', Str ''nan'']),
         (''Cleaned Notes'', [Str ''pt complains of heart rate'', Str ''nan''])],
        Inr [(''c/o'', 1), (''hr'', 1)])"
proof -
  let ?df1 = "[(''Clinical Notes'', [Str ''Pt c/o HR!'', Obj ()])] :: unit frame"
  let ?df2 = "[(''id'', [Obj ()]), (''Clinical Notes'', [Str ''Pt c/o HR!'', Obj ()])] :: unit frame"
  let ?df1' = "[(''Clinical Notes'', [Str ''Pt c/o HR!'', Obj ()]),
         (''Original Notes'', [Str ''Pt c/o HR!'', Str ''nan'']),
         (''Cleaned Notes'', [Str ''pt complains of heart rate'', Str ''nan''])] :: unit frame"
  let ?r = "[(''hr'', ''heart rate''), (''c/o'', ''complains of'')]"
  let ?p = "[''hr'', ''c/o'']"
  have 1: "map_of ?df2 ''Clinical Notes'' = map_of ?df1 ''Clinical Notes''" by simp
  have 2: "clean_notes (\<lambda>u. ''nan'') ?df1 ?r ?p = (?df1', Inr [(''c/o'', 1), (''hr'', 1)])"
    by code_simp
  from clean_notes_deterministic [OF 1 2] 1 2 show ?thesis by (simp only: simp_thms)
qed

section \<open>The shape of cleaned notes\<close>

lemma lower_char_not_upper: "\<not> ascii_upper (lower_char ch)"
proof -
  let ?n = "of_char ch :: nat"
  show ?thesis
  proof (cases "(65 \<le> ?n \<and> ?n \<le> 90) \<or> (192 \<le> ?n \<and> ?n \<le> 214) \<or> (216 \<le> ?n \<and> ?n \<le> 222)")
    case True
    define m where "m = ?n + 32"
    from True have 1: "lower_char ch = char_of m"
      unfolding lower_char_def Let_def m_def by (simp only: if_True)
    from True have "m mod 256 = m" by (auto simp: m_def)
    then have m1: "(of_char (char_of m) :: nat) = m" by simp
    from True have "\<not> (65 \<le> m \<and> m \<le> 90)" by (auto simp: m_def)
    then have "\<not> ascii_upper (char_of m)" unfolding ascii_upper_def Let_def m1 .
    with 1 show ?thesis by simp
  next
    case False
    then have 1: "lower_char ch = ch" unfolding lower_char_def Let_def by (simp only: if_False)
    from False have "\<not> (65 \<le> ?n \<and> ?n \<le> 90)" by blast
    then have "\<not> ascii_upper ch" unfolding ascii_upper_def Let_def .
    with 1 show ?thesis by simp
  qed
qed

lemma lower_not_upper: "ch \<in> set (lower s) \<Longrightarrow> \<not> ascii_upper ch"
  by (auto simp: lower_def lower_char_not_upper)

lemma set_update_subset: "set (AList.update k v al) \<subseteq> insert (k, v) (set al)"
  by (induction al) auto

lemma fold_update_invariant:
  assumes "\<forall>(k, v)\<in>set d0. P k v" and "\<And>sh ff. P (f sh) (g ff)"
  shows "\<forall>(k, v)\<in>set (fold (\<lambda>(shorthand, full_form) d. AList.update (f shorthand) (g full_form) d) rows d0). P k v"
  using assms(1)
proof (induction rows arbitrary: d0)
  case Nil
  then show ?case by simp
next
  case (Cons r rows)
  obtain sh ff where r: "r = (sh, ff)" by (cases r)
  have "\<forall>(k, v)\<in>set (AList.update (f sh) (g ff) d0). P k v"
    using Cons.prems assms(2) [of sh ff] set_update_subset [of "f sh" "g ff" d0] by blast
  then show ?case using Cons.IH r by simp
qed

lemma load_replacements_lowercase:
  assumes "load_replacements rows = (tbl, pat)" and "(k, v) \<in> set tbl"
  shows "lower k = k \<and> (\<forall>ch\<in>set v. \<not> ascii_upper ch)"
proof -
  let ?P = "\<lambda>k v. lower k = k \<and> (\<forall>ch\<in>set v. \<not> ascii_upper ch)"
  have "\<forall>(k, v)\<in>set (fold (\<lambda>(shorthand, full_form) d.
            AList.update (lower (strip shorthand)) (lower (strip full_form)) d) rows []). ?P k v"
    by (rule fold_update_invariant) (simp_all add: lower_idem lower_not_upper)
  moreover from assms(1) have "tbl = fold (\<lambda>(shorthand, full_form) d.
            AList.update (lower (strip shorthand)) (lower (strip full_form)) d) rows []"
    by (simp add: load_replacements_def Let_def)
  ultimately show ?thesis using assms(2) by blast
qed

text \<open>
  A callback that returns a replacement for every alternative makes the scan return,
  and the result is made of characters of the text and of the replacements.
\<close>

lemma pattern_sub_total:
  assumes "\<And>m s. m \<in> set alts \<Longrightarrow> \<exists>item s'. repl m s = (Inr item, s') \<and> set item \<subseteq> A"
  shows "\<exists>out st'. pattern_sub alts repl must prev rest st = (Inr out, st') \<and> set out \<subseteq> set rest \<union> A"
proof (induction "2 * length rest + (if must then 0 else (1::nat))"
         arbitrary: prev rest must st rule: less_induct)
  case less
  show ?case
  proof (cases "match_here alts must prev rest")
    case None
    show ?thesis
    proof (cases rest)
      case Nil
      have "pattern_sub alts repl must prev rest st = (Inr [], st)"
        by (subst pattern_sub.simps, simp only: None option.case, simp add: Nil)
      then show ?thesis by simp
    next
      case (Cons ch r)
      have l: "pattern_sub alts repl must prev rest st =
                 emit [ch] (pattern_sub alts repl False (is_word ch) r st)"
        by (subst pattern_sub.simps, simp only: None option.case, simp add: Cons)
      have "2 * length r + (if False then 0 else 1) < 2 * length rest + (if must then 0 else (1::nat))"
        using Cons by simp
      then obtain out st' where
        "pattern_sub alts repl False (is_word ch) r st = (Inr out, st')" "set out \<subseteq> set r \<union> A"
        using less.hyps by blast
      with l Cons have "pattern_sub alts repl must prev rest st = (Inr (ch # out), st') \<and>
          set (ch # out) \<subseteq> set rest \<union> A" by (auto simp: emit_Inr)
      then show ?thesis by blast
    qed
  next
    case (Some m)
    then have min: "m \<in> set alts" using match_here_Some by blast
    then obtain item s1 where call: "repl m st = (Inr item, s1)" and item: "set item \<subseteq> A"
      using assms by blast
    let ?r' = "drop (length m) rest"
    have l: "pattern_sub alts repl must prev rest st =
               emit item (pattern_sub alts repl (m = []) (word_after prev m) ?r' s1)"
      by (subst pattern_sub.simps) (simp add: Some call)
    have "2 * length ?r' + (if m = [] then 0 else 1) < 2 * length rest + (if must then 0 else 1)"
      using Some by (rule match_here_shrinks)
    then obtain out st' where
      o: "pattern_sub alts repl (m = []) (word_after prev m) ?r' s1 = (Inr out, st')"
         "set out \<subseteq> set ?r' \<union> A"
      using less.hyps by blast
    have "set ?r' \<subseteq> set rest" by (rule set_drop_subset)
    with o(2) item have "set (item @ out) \<subseteq> set rest \<union> A" by auto
    moreover from l o(1) have "pattern_sub alts repl must prev rest st = (Inr (item @ out), st')"
      by (simp add: emit_Inr)
    ultimately show ?thesis by blast
  qed
qed


lemma set_apply_regex: "set (apply_regex t) \<subseteq> insert (CHR '' '') (set t)"
proof -
  have "set (apply_regex t) \<subseteq> set (sub_spaces (sub_symbols t))"
    unfolding apply_regex_def by (rule set_strip)
  also have "\<dots> \<subseteq> insert (CHR '' '') (set (sub_symbols t))" by (rule set_sub_spaces)
  also have "\<dots> \<subseteq> insert (CHR '' '') (set t)" by (auto simp: sub_symbols_def)
  finally show ?thesis .
qed

lemma single_spaced_space: "single_spaced r \<Longrightarrow> ch \<in> set r \<Longrightarrow> is_space ch \<Longrightarrow> ch = CHR '' ''"
  by (induction r) auto

lemma single_spaced_pairs:
  "single_spaced r \<Longrightarrow> Suc i < length r \<Longrightarrow> \<not> (r ! i = CHR '' '' \<and> r ! Suc i = CHR '' '')"
proof (induction r arbitrary: i)
  case Nil
  then show ?case by simp
next
  case (Cons ch s)
  show ?case
  proof (cases i)
    case 0
    show ?thesis
    proof
      assume a: "(ch # s) ! i = CHR '' '' \<and> (ch # s) ! Suc i = CHR '' ''"
      with 0 have c: "ch = CHR '' ''" and h: "s ! 0 = CHR '' ''" by simp_all
      from Cons.prems(2) 0 have ne: "s \<noteq> []" by auto
      from c Cons.prems(1) ne have "\<not> is_space (hd s)" by (simp add: is_space_blank)
      moreover from ne h have "hd s = CHR '' ''" by (simp add: hd_conv_nth)
      ultimately show False by (simp add: is_space_blank)
    qed
  next
    case (Suc j)
    with Cons.prems have "single_spaced s" "Suc j < length s" by simp_all
    then have "\<not> (s ! j = CHR '' '' \<and> s ! Suc j = CHR '' '')" by (rule Cons.IH)
    with Suc show ?thesis by simp
  qed
qed

lemma blank_not_upper: "\<not> ascii_upper (CHR '' '')"
  by (simp add: ascii_upper_def)

lemma bulk_replace_loaded:
  assumes "load_replacements rows = (tbl, pat)" and "tbl \<noteq> []"
  shows "\<exists>out c'. bulk_replace T tbl pat c = (Inr out, c') \<and> (\<forall>ch\<in>set out. \<not> ascii_upper ch)"
proof -
  let ?A = "{ch. \<not> ascii_upper ch}"
  from assms have pat: "pat = map fst tbl"
    by (auto simp: load_replacements_def Let_def compile_pattern_def)
  have call: "\<exists>item s'. replace_match tbl m s = (Inr item, s') \<and> set item \<subseteq> ?A"
    if "m \<in> set (map fst tbl)" for m and s :: counter
  proof -
    from that have "map_of tbl m \<noteq> None" by (simp add: map_of_eq_None_iff)
    then obtain v where v: "map_of tbl m = Some v" by blast
    then have in_tbl: "(m, v) \<in> set tbl" by (rule map_of_SomeD)
    with assms(1) have low: "lower m = m" and up: "\<forall>ch\<in>set v. \<not> ascii_upper ch"
      using load_replacements_lowercase by blast+
    from low v have "replace_match tbl m s = (Inr v, incr m s)" by (rule replace_match_key)
    with up show ?thesis by blast
  qed
  obtain out c' where o: "pattern_sub (map fst tbl) (replace_match tbl) False False (lower T) c = (Inr out, c')"
      "set out \<subseteq> set (lower T) \<union> ?A"
    using pattern_sub_total [of "map fst tbl" "replace_match tbl" ?A False False "lower T" c] call
    by blast
  from o(2) have "\<forall>ch\<in>set out. \<not> ascii_upper ch" using lower_not_upper by blast
  with o(1) pat show ?thesis by (simp add: bulk_replace_def)
qed

text \<open>
  Claim C10. For every dictionary that \<open>load_replacements\<close> gives and that is not
  empty, and every text and counter, \<open>bulk_replace\<close> returns a text, and \<open>apply_regex\<close>
  of it has no uppercase ASCII letter and no character other than word characters,
  spaces, commas and forward slashes, neither starts nor ends with a space, and has no
  two spaces in a row.
\<close>

theorem cleaned_notes_shape:
  assumes "load_replacements rows = (tbl, pat)" and "tbl \<noteq> []"
  shows "\<exists>out c'. bulk_replace T tbl pat c = (Inr out, c') \<and>
           (\<forall>ch\<in>set (apply_regex out).
              \<not> ascii_upper ch \<and> (is_word ch \<or> ch = CHR '' '' \<or> ch = CHR '','' \<or> ch = CHR ''/'')) \<and>
           (apply_regex out \<noteq> [] \<longrightarrow>
              hd (apply_regex out) \<noteq> CHR '' '' \<and> last (apply_regex out) \<noteq> CHR '' '') \<and>
           (\<forall>i. Suc i < length (apply_regex out) \<longrightarrow>
              \<not> (apply_regex out ! i = CHR '' '' \<and> apply_regex out ! Suc i = CHR '' ''))"
proof -
  from assms obtain out c' where
    run: "bulk_replace T tbl pat c = (Inr out, c')" and up: "\<forall>ch\<in>set out. \<not> ascii_upper ch"
    using bulk_replace_loaded by blast
  let ?r = "apply_regex out"
  have ss: "single_spaced ?r" by (rule apply_regex_single_spaced)
  have 1: "\<forall>ch\<in>set ?r. \<not> ascii_upper ch \<and>
             (is_word ch \<or> ch = CHR '' '' \<or> ch = CHR '','' \<or> ch = CHR ''/'')"
  proof
    fix ch
    assume ch: "ch \<in> set ?r"
    then have "ch = CHR '' '' \<or> ch \<in> set out" using set_apply_regex by blast
    with up have a: "\<not> ascii_upper ch" using blank_not_upper by blast
    from ch have "\<not> symbol_class ch" by (rule apply_regex_chars)
    then have "is_word ch \<or> is_space ch \<or> ch = CHR '','' \<or> ch = CHR ''/''"
      by (simp add: symbol_class_def)
    moreover have "is_space ch \<Longrightarrow> ch = CHR '' ''" using ss ch by (rule single_spaced_space)
    ultimately have "is_word ch \<or> ch = CHR '' '' \<or> ch = CHR '','' \<or> ch = CHR ''/''" by blast
    with a show "\<not> ascii_upper ch \<and>
             (is_word ch \<or> ch = CHR '' '' \<or> ch = CHR '','' \<or> ch = CHR ''/'')" ..
  qed
  have 2: "?r \<noteq> [] \<longrightarrow> hd ?r \<noteq> CHR '' '' \<and> last ?r \<noteq> CHR '' ''"
    using apply_regex_ends [of out] is_space_blank by auto
  have 3: "\<forall>i. Suc i < length ?r \<longrightarrow> \<not> (?r ! i = CHR '' '' \<and> ?r ! Suc i = CHR '' '')"
    using ss single_spaced_pairs by blast
  from run 1 2 3 show ?thesis by blast
qed

text \<open>Claim C10 on a note with uppercase letters, symbols and runs of spaces.\<close>

theorem cleaned_notes_shape_witness:
  "load_replacements [(''HR '', ''Heart  Rate'')] = ([(''hr'', ''heart  rate'')], [''hr'']) \<and>
   [(''hr'', ''heart  rate'')] \<noteq> [] \<and>
   bulk_replace ''  Pt HR: OK/Stable,  fine!! '' [(''hr'', ''heart  rate'')] [''hr''] []
     = (Inr ''  pt heart  rate: ok/stable,  fine!! '', [(''hr'', 1)]) \<and>
   apply_regex ''  pt heart  rate: ok/stable,  fine!! '' = ''pt heart rate ok/stable, fine'' \<and>
   (\<exists>out c'. bulk_replace ''  Pt HR: OK/Stable,  fine!! '' [(''hr'', ''heart  rate'')] [''hr''] []
        = (Inr out, c') \<and> list_all (\<lambda>ch. \<not> ascii_upper ch) (apply_regex out))"
proof -
  have 1: "load_replacements [(''HR '', ''Heart  Rate'')] = ([(''hr'', ''heart  rate'')], [''hr''])"
    by code_simp
  have 2: "[(''hr'', ''heart  rate'')] \<noteq> ([] :: table)" by simp
  have 3: "bulk_replace ''  Pt HR: OK/Stable,  fine!! '' [(''hr'', ''heart  rate'')] [''hr''] []
     = (Inr ''  pt heart  rate: ok/stable,  fine!! '', [(''hr'', 1)])" by code_simp
  have 4: "apply_regex ''  pt heart  rate: ok/stable,  fine!! '' = ''pt heart rate ok/stable, fine''"
    by code_simp
  from cleaned_notes_shape [OF 1 2, of "''  Pt HR: OK/Stable,  fine!! ''" "[]"]
  have "\<exists>out c'. bulk_replace ''  Pt HR: OK/Stable,  fine!! '' [(''hr'', ''heart  rate'')] [''hr''] []
        = (Inr out, c') \<and> list_all (\<lambda>ch. \<not> ascii_upper ch) (apply_regex out)"
    by (auto simp: list_all_iff)
  with 1 2 3 4 show ?thesis by (simp only: simp_thms)
qed

end
